theory Spec2Isabelle
  imports Main "HOL-Library.Sublist"
begin

section \<open>The README help block: \<^verbatim>\<open>sync_readme.py\<close> and \<^verbatim>\<open>check_synced_readme.py\<close>\<close>

text \<open>
  Two scripts keep the help block of \<^verbatim>\<open>README.md\<close> equal to the output of
  \<^verbatim>\<open>cargo run -- --help\<close>. Text is modelled as \<open>string\<close>, a list of characters:
  the help text is the decoded output of the subprocess, and a file that decodes
  holds such a list. Python opens the README in text mode, so what the script
  works on is the file's text after the translation of line endings.
\<close>

subsection \<open>Python: exceptions, \<^verbatim>\<open>str.split\<close>, subscripts\<close>

text \<open>
  The exceptions the script can raise: \<^verbatim>\<open>check_output\<close> fails, \<^verbatim>\<open>open\<close> finds no
  file, \<^verbatim>\<open>read\<close> meets bytes that do not decode, a subscript is out of range,
  \<^verbatim>\<open>split\<close> is given an empty separator. The script catches none of them, so each
  one ends the run with exit status 1.
\<close>

datatype error =
  CalledProcessError | FileNotFoundError | UnicodeDecodeError | IndexError | ValueError

abbreviation newline :: char where
  "newline \<equiv> CHR 0x0A"

abbreviation carriage_return :: char where
  "carriage_return \<equiv> CHR 0x0D"

text \<open>
  What is in a file: bytes that the encoding of the locale does not decode, or the
  characters they decode to. Two files with the same characters have the same bytes.
\<close>

datatype file_content = Undecodable | Text string

text \<open>
  What \<^verbatim>\<open>file.read()\<close> does to the decoded characters of a file opened with
  \<^verbatim>\<open>open(name, 'r')\<close>: a carriage return followed by a newline becomes one newline,
  and any other carriage return becomes a newline.
\<close>

fun universal_newlines :: "string \<Rightarrow> string" where
  "universal_newlines [] = []"
| "universal_newlines [c] = (if c = carriage_return then [newline] else [c])"
| "universal_newlines (c # d # cs) =
     (if c = carriage_return
      then (if d = newline then newline # universal_newlines cs
            else newline # universal_newlines (d # cs))
      else c # universal_newlines (d # cs))"

text \<open>\<^verbatim>\<open>with open(name, 'r') as file: data = file.read()\<close>\<close>

definition read_text :: "file_content option \<Rightarrow> error + string" where
  "read_text f =
     (case f of None \<Rightarrow> Inl FileNotFoundError
      | Some Undecodable \<Rightarrow> Inl UnicodeDecodeError
      | Some (Text s) \<Rightarrow> Inr (universal_newlines s))"

text \<open>
  \<^verbatim>\<open>data.split(sep)\<close> for a non-empty separator: scan from the left, cut at each
  occurrence of \<open>sep\<close> and go on behind it, so that occurrences found never overlap.
  The result has one more segment than cuts.
\<close>

fun split_str :: "'a list \<Rightarrow> 'a list \<Rightarrow> 'a list list" where
  "split_str sep [] = [[]]"
| "split_str sep (c # cs) =
     (if prefix sep (c # cs) then [] # split_str sep (drop (length sep - 1) cs)
      else (case split_str sep cs of [] \<Rightarrow> [[c]] | p # ps \<Rightarrow> (c # p) # ps))"

definition py_split :: "'a list \<Rightarrow> 'a list \<Rightarrow> error + 'a list list" where
  "py_split xs sep = (if sep = [] then Inl ValueError else Inr (split_str sep xs))"

text \<open>\<^verbatim>\<open>xs[i]\<close> for the non-negative literal indices the script uses.\<close>

definition py_index :: "'a list \<Rightarrow> nat \<Rightarrow> error + 'a" where
  "py_index xs i = (if i < length xs then Inr (xs ! i) else Inl IndexError)"

subsection \<open>\<^verbatim>\<open>sync_readme.py\<close>\<close>

definition tag_start :: string where
  "tag_start = ''<!-- HELP_START -->''"

definition tag_end :: string where
  "tag_end = ''<!-- HELP_END -->''"

text \<open>The literal \<^verbatim>\<open>"\n```\n"\<close> that opens and closes the fenced block.\<close>

definition fence :: string where
  "fence = newline # ''```'' @ [newline]"

text \<open>
  Lines 14 to 19: from the help text and the README's text to \<^verbatim>\<open>out\<close>, or to the
  exception of the first subscript that is out of range.
\<close>

definition splice :: "string \<Rightarrow> string \<Rightarrow> error + string" where
  "splice help_text data =
     (case py_split data tag_start of Inl e \<Rightarrow> Inl e | Inr start_parts \<Rightarrow>
      case py_index start_parts 0 of Inl e \<Rightarrow> Inl e | Inr start \<Rightarrow>
      case py_index start_parts 1 of Inl e \<Rightarrow> Inl e | Inr second \<Rightarrow>
      case py_split second tag_end of Inl e \<Rightarrow> Inl e | Inr end_parts \<Rightarrow>
      case py_index end_parts 1 of Inl e \<Rightarrow> Inl e | Inr end' \<Rightarrow>
        Inr (start @ tag_start @ fence @ help_text @ fence @ tag_end @ end'))"

text \<open>
  The world the scripts run in. \<open>readme\<close> is the file \<^verbatim>\<open>README.md\<close> in the working
  tree (\<open>None\<close>: no such file), \<open>stdout\<close> what has been printed so far, \<open>spawned\<close>
  the subprocesses started so far, in order. The two external collaborators are
  given by what they answer: \<open>help_cmd\<close> is the outcome of
  \<^verbatim>\<open>check_output(['cargo', 'run', '--', '--help']).decode('utf-8')\<close>, and
  \<open>git_diff\<close> is what \<^verbatim>\<open>git diff ./README.md\<close> prints for a given content of the
  working-tree file (neither script touches the index, so it is the same function
  throughout a run).
\<close>

record world =
  readme :: "file_content option"
  stdout :: string
  spawned :: "string list"
  help_cmd :: "error + string"
  git_diff :: "file_content option \<Rightarrow> string"

definition spawn :: "string \<Rightarrow> world \<Rightarrow> world" where
  "spawn cmd w = w\<lparr>spawned := spawned w @ [cmd]\<rparr>"

definition cargo_help :: string where
  "cargo_help = ''cargo run -- --help''"

text \<open>
  The whole script. \<^verbatim>\<open>print(out)\<close> writes \<open>out\<close> and a newline to standard output.
  Opening the file with \<^verbatim>\<open>'w'\<close> and writing \<open>out\<close> leaves the characters of \<open>out\<close>
  in it: the scripts run under a POSIX shell, where writing in text mode changes no
  line ending.
\<close>

definition sync_readme :: "world \<Rightarrow> (error + unit) \<times> world" where
  "sync_readme w0 =
     (let w = spawn cargo_help w0 in
      case help_cmd w of Inl e \<Rightarrow> (Inl e, w) | Inr help_text \<Rightarrow>
      case read_text (readme w) of Inl e \<Rightarrow> (Inl e, w) | Inr data \<Rightarrow>
      case splice help_text data of Inl e \<Rightarrow> (Inl e, w) | Inr out \<Rightarrow>
        (Inr (), w\<lparr>stdout := stdout w @ out @ [newline], readme := Some (Text out)\<rparr>))"

text \<open>The exit status of the Python process: 1 after an uncaught exception.\<close>

definition exit_status :: "error + unit \<Rightarrow> nat" where
  "exit_status r = (case r of Inl e \<Rightarrow> 1 | Inr u \<Rightarrow> 0)"

subsection \<open>\<^verbatim>\<open>check_synced_readme.py\<close>\<close>

text \<open>
  \<^verbatim>\<open>"$(cmd)"\<close> is the output of \<open>cmd\<close> without its trailing newlines, and
  \<^verbatim>\<open>[ -z s ]\<close> holds when \<open>s\<close> is empty. \<^verbatim>\<open>echo s\<close> prints \<open>s\<close> and a newline.
\<close>

definition cmd_subst :: "string \<Rightarrow> string" where
  "cmd_subst s = rev (dropWhile (\<lambda>c. c = newline) (rev s))"

definition echo :: "string \<Rightarrow> world \<Rightarrow> world" where
  "echo s w = w\<lparr>stdout := stdout w @ s @ [newline]\<rparr>"

definition git_diff_cmd :: string where
  "git_diff_cmd = ''git diff ./README.md''"

definition sync_cmd :: string where
  "sync_cmd = ''./scripts/sync_readme.py''"

text \<open>Running \<^verbatim>\<open>git diff $FILE\<close>: the text it prints, and the world with the spawn recorded.\<close>

definition run_git_diff :: "world \<Rightarrow> string \<times> world" where
  "run_git_diff w = (git_diff w (readme w), spawn git_diff_cmd w)"

text \<open>
  The script returns its exit status and the final world. Under \<^verbatim>\<open>set -e\<close> a
  non-zero status of \<^verbatim>\<open>./scripts/sync_readme.py\<close> ends the script with that status.
  In the last branch \<^verbatim>\<open>git diff\<close> runs a third time, this time printing to the
  script's own standard output.
\<close>

definition check_synced_readme :: "world \<Rightarrow> nat \<times> world" where
  "check_synced_readme w0 =
     (let (d1, w1) = run_git_diff w0 in
      if cmd_subst d1 = [] then
        (let w2 = echo ''Working directory clean'' w1;
             (r, w3) = sync_readme (spawn sync_cmd w2)
         in if exit_status r \<noteq> 0 then (exit_status r, w3)
            else
              (let (d2, w4) = run_git_diff w3 in
               if cmd_subst d2 = [] then (0, echo ''README is up to date'' w4)
               else
                 (let (d3, w5) = run_git_diff w4;
                      w6 = w5\<lparr>stdout := stdout w5 @ d3\<rparr>
                  in (1, echo ''README not synced'' w6))))
      else (1, echo ''README file not clean'' w1))"

subsection \<open>Occurrences of a marker in a text\<close>

text \<open>
  The positions at which \<open>m\<close> occurs in \<open>xs\<close>, in ascending order, every occurrence
  counted (also overlapping ones). This is the vocabulary of the properties below; it
  does not use \<open>split_str\<close>.
\<close>

fun positions :: "'a list \<Rightarrow> 'a list \<Rightarrow> nat list" where
  "positions m [] = (if m = [] then [0] else [])"
| "positions m (c # cs) =
     (if prefix m (c # cs) then [0] else []) @ map Suc (positions m cs)"

definition count_sub :: "'a list \<Rightarrow> 'a list \<Rightarrow> nat" where
  "count_sub m xs = length (positions m xs)"

text \<open>The text strictly before the first occurrence of \<open>m\<close>, and strictly after the last one.\<close>

definition text_before :: "'a list \<Rightarrow> 'a list \<Rightarrow> 'a list" where
  "text_before m xs = take (hd (positions m xs)) xs"

definition text_after :: "'a list \<Rightarrow> 'a list \<Rightarrow> 'a list" where
  "text_after m xs = drop (last (positions m xs) + length m) xs"

text \<open>
  A well-formed README: each marker occurs exactly once, the start marker first.
  Its help block is the text strictly between the two markers.
\<close>

definition well_formed :: "string \<Rightarrow> bool" where
  "well_formed R \<longleftrightarrow>
     count_sub tag_start R = 1 \<and> count_sub tag_end R = 1 \<and>
     hd (positions tag_start R) < hd (positions tag_end R)"

definition help_block :: "string \<Rightarrow> string" where
  "help_block R =
     (let i = hd (positions tag_start R) + length tag_start
      in take (hd (positions tag_end R) - i) (drop i R))"


subsection \<open>Worlds to run the scripts in\<close>

text \<open>
  A \<^verbatim>\<open>git diff\<close> that prints nothing when the working-tree README has the committed
  text \<open>c\<close> and the header line of a diff otherwise, and worlds built on it: a stale
  README, one in sync, one whose help command fails, one with an uncommitted edit,
  one in sync whose first line ends in carriage return and newline, and one in sync
  up to the first of two end markers.
\<close>

definition committed_diff :: "string \<Rightarrow> file_content option \<Rightarrow> string" where
  "committed_diff c f =
     (if f = Some (Text c) then [] else ''diff --git a/README.md b/README.md'')"

definition w_small :: world where
  "w_small = \<lparr>readme = Some (Text ''<!-- HELP_START --><!-- HELP_END -->''), stdout = [],
              spawned = [], help_cmd = Inr ''h'', git_diff = (\<lambda>f. [])\<rparr>"

definition w_no_end :: world where
  "w_no_end = \<lparr>readme = Some (Text ''a<!-- HELP_START -->b''), stdout = [], spawned = [],
               help_cmd = Inr ''NEW'', git_diff = (\<lambda>f. [])\<rparr>"

definition w_stale :: world where
  "w_stale = \<lparr>readme = Some (Text ''<!-- HELP_START -->v1<!-- HELP_END -->''), stdout = [],
              spawned = [], help_cmd = Inr ''v2'',
              git_diff = committed_diff ''<!-- HELP_START -->v1<!-- HELP_END -->''\<rparr>"

definition w_synced :: world where
  "w_synced = \<lparr>readme = Some (Text (tag_start @ fence @ ''v2'' @ fence @ tag_end)),
               stdout = [], spawned = [], help_cmd = Inr ''v2'',
               git_diff = committed_diff (tag_start @ fence @ ''v2'' @ fence @ tag_end)\<rparr>"

definition w_no_cargo :: world where
  "w_no_cargo = \<lparr>readme = Some (Text ''<!-- HELP_START -->v1<!-- HELP_END -->''),
                 stdout = [], spawned = [], help_cmd = Inl CalledProcessError,
                 git_diff = committed_diff ''<!-- HELP_START -->v1<!-- HELP_END -->''\<rparr>"

definition w_dirty :: world where
  "w_dirty = \<lparr>readme = Some (Text ''<!-- HELP_START -->v1<!-- HELP_END -->edited''),
              stdout = [], spawned = [], help_cmd = Inr ''v2'',
              git_diff = committed_diff ''<!-- HELP_START -->v1<!-- HELP_END -->''\<rparr>"

definition readme_crlf :: string where
  "readme_crlf = ''# tool'' @ [carriage_return, newline] @ tag_start @ fence @ ''v2'' @ fence
                 @ tag_end @ ''bye''"

definition w_crlf :: world where
  "w_crlf = \<lparr>readme = Some (Text readme_crlf), stdout = [], spawned = [],
             help_cmd = Inr ''v2'', git_diff = committed_diff readme_crlf\<rparr>"

definition readme_two_ends :: string where
  "readme_two_ends = tag_start @ fence @ ''v2'' @ fence @ tag_end @ ''c'' @ tag_end @ ''d''"

definition w_two_ends :: world where
  "w_two_ends = \<lparr>readme = Some (Text readme_two_ends), stdout = [], spawned = [],
                 help_cmd = Inr ''v2'', git_diff = committed_diff readme_two_ends\<rparr>"

section \<open>Properties\<close>

subsection \<open>Splitting and occurrences\<close>

lemma split_str_not_Nil: "split_str m xs \<noteq> []"
  by (induction m xs rule: split_str.induct) (auto split: list.splits)

lemma prefix_append_short:
  assumes "prefix m (A @ B)" "length m \<le> length A"
  shows "prefix m A"
  using assms by (auto simp: prefix_append)

lemma split_str_none: "m \<noteq> [] \<Longrightarrow> \<not> sublist m xs \<Longrightarrow> split_str m xs = [xs]"
  by (induction xs) (auto simp: sublist_Cons_right)

lemma split_str_first:
  "m \<noteq> [] \<Longrightarrow> \<not> sublist m (P @ butlast m) \<Longrightarrow> split_str m (P @ m @ Q) = P # split_str m Q"
proof (induction P)
  case Nil
  then obtain c cs where m: "m = c # cs" by (cases m) auto
  show ?case by (simp add: m)
next
  case (Cons p P)
  have "\<not> prefix m (p # P @ m @ Q)"
  proof
    assume "prefix m (p # P @ m @ Q)"
    moreover have "m @ Q = butlast m @ [last m] @ Q"
      using Cons.prems(1) by (metis append.assoc append_butlast_last_id)
    ultimately have "prefix m (((p # P) @ butlast m) @ ([last m] @ Q))"
      by simp
    then have "prefix m ((p # P) @ butlast m)"
      by (rule prefix_append_short) simp
    then show False using Cons.prems(2) by auto
  qed
  moreover have "\<not> sublist m (P @ butlast m)"
    using Cons.prems(2) by (simp add: sublist_Cons_right)
  ultimately show ?case using Cons.IH Cons.prems(1) by simp
qed

lemma split_str_hd_prefix: "prefix (hd (split_str m xs)) xs"
  by (induction m xs rule: split_str.induct) (auto split: list.splits)

lemma split_str_sublist: "x \<in> set (split_str m xs) \<Longrightarrow> sublist x xs"
proof (induction m xs arbitrary: x rule: split_str.induct)
  case (1 sep)
  then show ?case by simp
next
  case (2 sep c cs)
  show ?case
  proof (cases "prefix sep (c # cs)")
    case True
    with 2 have "x = [] \<or> sublist x (drop (length sep - 1) cs)" by auto
    then show ?thesis
      by (metis sublist_Nil_left sublist_drop sublist_order.order_trans sublist_Cons_right)
  next
    case False
    obtain p ps where sp: "split_str sep cs = p # ps"
      using split_str_not_Nil by (cases "split_str sep cs") auto
    with False 2 have "x = c # p \<or> x \<in> set ps" by auto
    then show ?thesis
    proof
      assume "x = c # p"
      moreover have "prefix p cs" using split_str_hd_prefix[of sep cs] sp by simp
      ultimately show ?thesis by auto
    next
      assume "x \<in> set ps"
      then have "sublist x cs" using 2(2)[OF False] sp by simp
      then show ?thesis by (simp add: sublist_Cons_right)
    qed
  qed
qed

lemma split_str_some: "m \<noteq> [] \<Longrightarrow> sublist m xs \<Longrightarrow> 2 \<le> length (split_str m xs)"
proof (induction xs)
  case Nil
  then show ?case by simp
next
  case (Cons c cs)
  show ?case
  proof (cases "prefix m (c # cs)")
    case True
    then show ?thesis using split_str_not_Nil[of m "drop (length m - 1) cs"]
      by (cases "split_str m (drop (length m - 1) cs)") auto
  next
    case False
    with Cons have "2 \<le> length (split_str m cs)" by (simp add: sublist_Cons_right)
    then show ?thesis using False by (auto split: list.splits)
  qed
qed

lemma sub_app_hd:
  assumes "sublist m (A @ B)" "m \<noteq> []" "hd m \<notin> set A"
  shows "sublist m B"
proof -
  from assms(1) consider "sublist m A" | "sublist m B"
    | s1 s2 where "m = s1 @ s2" "suffix s1 A" "prefix s2 B"
    by (auto simp: sublist_append)
  then show ?thesis
  proof cases
    case 1
    then have "set m \<subseteq> set A" by (rule set_mono_sublist)
    then show ?thesis using assms(3) hd_in_set[OF assms(2)] by auto
  next
    case 2
    then show ?thesis .
  next
    case 3
    show ?thesis
    proof (cases "s1 = []")
      case True
      then show ?thesis using 3 by auto
    next
      case False
      then have "hd m \<in> set s1" using 3(1) by simp
      then have "hd m \<in> set A" using 3(2) set_mono_suffix by blast
      then show ?thesis using assms(3) by simp
    qed
  qed
qed

lemma sub_app_mid:
  assumes "sublist m (A @ B)" "B \<noteq> []" "hd B \<notin> set m"
  shows "sublist m A \<or> sublist m B"
proof -
  from assms(1) consider "sublist m A" | "sublist m B"
    | s1 s2 where "m = s1 @ s2" "suffix s1 A" "prefix s2 B"
    by (auto simp: sublist_append)
  then show ?thesis
  proof cases
    case 3
    show ?thesis
    proof (cases "s2 = []")
      case True
      then show ?thesis using 3 by auto
    next
      case False
      then have "hd s2 = hd B" using 3(3) by (auto simp: prefix_def)
      moreover have "hd s2 \<in> set m" using False 3(1) by simp
      ultimately show ?thesis using assms(3) by simp
    qed
  qed auto
qed

lemma occ_in_middle:
  assumes "sublist m A"
  shows "\<exists>j. prefix m (drop j (Pre @ A @ Post)) \<and> length Pre \<le> j
             \<and> j + length m \<le> length Pre + length A"
proof -
  from assms obtain ps ss where A: "A = ps @ m @ ss" by (auto simp: sublist_def)
  have "prefix m (drop (length Pre + length ps) (Pre @ A @ Post))" by (simp add: A)
  then show ?thesis using A by (intro exI[of _ "length Pre + length ps"]) simp
qed

lemma positions_set: "m \<noteq> [] \<Longrightarrow> set (positions m xs) = {j. prefix m (drop j xs)}"
proof (induction xs)
  case Nil
  then show ?case by simp
next
  case (Cons c cs)
  have "prefix m (drop j (c # cs)) \<longleftrightarrow>
          j = 0 \<and> prefix m (c # cs) \<or> (\<exists>k. j = Suc k \<and> prefix m (drop k cs))" for j
    by (cases j) auto
  then have "{j. prefix m (drop j (c # cs))} =
        (if prefix m (c # cs) then {0} else {}) \<union> Suc ` {j. prefix m (drop j cs)}"
    by auto
  then show ?case using Cons by auto
qed


lemma no_overlap:
  assumes "prefix m' (drop i xs)" "prefix m (drop j xs)" "i < j" "m \<noteq> []"
    and "hd m \<notin> set (tl m')"
  shows "i + length m' \<le> j"
proof (rule ccontr)
  assume "\<not> i + length m' \<le> j"
  then have d: "j - i < length m'" "0 < j - i" using assms(3) by auto
  from assms(1) obtain r where r: "drop i xs = m' @ r" by (auto simp: prefix_def)
  have "drop j xs = drop (j - i) (drop i xs)" using assms(3) by simp
  also have "\<dots> = drop (j - i) m' @ r" using d by (simp add: r)
  finally have "hd (drop j xs) = m' ! (j - i)" using d by (simp add: hd_drop_conv_nth)
  moreover have "m' ! (j - i) \<in> set (tl m')"
    using d by (cases m') (auto simp: nth_Cons' )
  moreover have "hd (drop j xs) = hd m" using assms(2,4) by (auto simp: prefix_def)
  ultimately show False using assms(5) by simp
qed

subsection \<open>The markers\<close>

lemma tag_start_facts:
  "tag_start \<noteq> []" "length tag_start = 19" "hd tag_start = CHR ''<''"
  "CHR ''<'' \<notin> set (tl tag_start)" "CHR ''<'' \<notin> set (tl tag_end)"
  "newline \<notin> set tag_start" "CHR ''<'' \<notin> set fence"
  by (simp_all add: tag_start_def tag_end_def fence_def)

lemma tag_end_facts:
  "tag_end \<noteq> []" "length tag_end = 17" "hd tag_end = CHR ''<''"
  "newline \<notin> set tag_end"
  by (simp_all add: tag_end_def)

lemma fence_facts: "fence \<noteq> []" "hd fence = newline"
  by (simp_all add: fence_def)

lemma splice_pattern:
  assumes "\<not> sublist tag_start (P @ butlast tag_start)"
    and "\<not> sublist tag_start (B @ tag_end @ X)"
    and "\<not> sublist tag_end (B @ butlast tag_end)"
    and "\<not> sublist tag_end X"
  shows "splice H (P @ tag_start @ B @ tag_end @ X)
         = Inr (P @ tag_start @ fence @ H @ fence @ tag_end @ X)"
proof -
  have 1: "split_str tag_start (P @ tag_start @ B @ tag_end @ X) = [P, B @ tag_end @ X]"
    using assms(1,2) by (simp add: split_str_first split_str_none tag_start_facts)
  have 2: "split_str tag_end (B @ tag_end @ X) = [B, X]"
    using assms(3,4) by (simp add: split_str_first split_str_none tag_end_facts)
  show ?thesis
    by (simp add: splice_def py_split_def py_index_def 1 2 tag_start_facts tag_end_facts)
qed

lemma splice_absent:
  assumes "\<not> sublist tag_start R \<or> \<not> sublist tag_end R"
  shows "splice H R = Inl IndexError"
proof (cases "sublist tag_start R")
  case False
  then have "split_str tag_start R = [R]" by (simp add: split_str_none tag_start_facts)
  then show ?thesis
    by (simp add: splice_def py_split_def py_index_def tag_start_facts)
next
  case True
  with assms have noe: "\<not> sublist tag_end R" by simp
  let ?parts = "split_str tag_start R"
  have len: "2 \<le> length ?parts" using True by (simp add: split_str_some tag_start_facts)
  then have "?parts ! 1 \<in> set ?parts" by simp
  then have "sublist (?parts ! 1) R" by (rule split_str_sublist)
  with noe have "\<not> sublist tag_end (?parts ! 1)"
    using sublist_order.order_trans by blast
  then have "split_str tag_end (?parts ! 1) = [?parts ! 1]"
    by (simp add: split_str_none tag_end_facts)
  then show ?thesis using len
    by (simp add: splice_def py_split_def py_index_def tag_start_facts tag_end_facts)
qed

lemma sublist_iff_positions: "m \<noteq> [] \<Longrightarrow> sublist m xs \<longleftrightarrow> positions m xs \<noteq> []"
proof -
  assume m: "m \<noteq> []"
  have "sublist m xs \<longleftrightarrow> (\<exists>j. prefix m (drop j xs))"
  proof
    assume "sublist m xs"
    from occ_in_middle[OF this, of "[]" "[]"] show "\<exists>j. prefix m (drop j xs)" by auto
  next
    assume "\<exists>j. prefix m (drop j xs)"
    then obtain j where "prefix m (drop j xs)" ..
    then have "sublist m (drop j xs)" by simp
    then show "sublist m xs" using sublist_drop sublist_order.order_trans by blast
  qed
  also have "\<dots> \<longleftrightarrow> set (positions m xs) \<noteq> {}" using positions_set[OF m, of xs] by auto
  finally show ?thesis by simp
qed

lemma count_sub_0_iff: "m \<noteq> [] \<Longrightarrow> count_sub m xs = 0 \<longleftrightarrow> \<not> sublist m xs"
  by (simp add: count_sub_def sublist_iff_positions)

lemma count_sub_1D:
  assumes "count_sub m xs = 1" "m \<noteq> []"
  shows "\<exists>i. positions m xs = [i] \<and> prefix m (drop i xs)
             \<and> (\<forall>j. prefix m (drop j xs) \<longrightarrow> j = i)"
proof -
  from assms(1) obtain i where i: "positions m xs = [i]"
    by (auto simp: count_sub_def length_Suc_conv)
  then have "{j. prefix m (drop j xs)} = {i}" using positions_set[OF assms(2), of xs] by simp
  then show ?thesis using i by blast
qed

lemma occ_split:
  assumes "prefix m (drop i xs)" "m \<noteq> []"
  shows "xs = take i xs @ m @ drop (i + length m) xs" "i < length xs"
proof -
  from assms(1) obtain zs where zs: "drop i xs = m @ zs" by (auto simp: prefix_def)
  then have "drop (length m) (drop i xs) = zs" by simp
  then have "zs = drop (i + length m) xs" by (simp add: add.commute)
  with zs have "drop i xs = m @ drop (i + length m) xs" by simp
  then have "take i xs @ drop i xs = take i xs @ m @ drop (i + length m) xs" by simp
  then show "xs = take i xs @ m @ drop (i + length m) xs"
    by (simp only: append_take_drop_id)
  show "i < length xs" using zs assms(2) by (cases "i < length xs") auto
qed

lemma snoc_butlast: "m \<noteq> [] \<Longrightarrow> A @ m @ B = (A @ butlast m) @ [last m] @ B"
  by (metis append.assoc append_butlast_last_id)

lemma uniq_before:
  assumes "m \<noteq> []" "\<And>j. prefix m (drop j (P @ m @ Q)) \<Longrightarrow> length P \<le> j"
  shows "\<not> sublist m (P @ butlast m)"
proof
  assume "sublist m (P @ butlast m)"
  from occ_in_middle[OF this, of "[]" "[last m] @ Q"]
  obtain j where "prefix m (drop j ((P @ butlast m) @ [last m] @ Q))"
    and j: "j + length m \<le> length (P @ butlast m)" by auto
  then have "prefix m (drop j (P @ m @ Q))"
    by (simp only: snoc_butlast[OF assms(1), of P Q, symmetric])
  then have "length P \<le> j" by (rule assms(2))
  moreover have "length (butlast m) + 1 = length m"
    using assms(1) by (cases m rule: rev_cases) simp_all
  ultimately show False using j unfolding length_append by linarith
qed

lemma uniq_after:
  assumes "\<And>j. prefix m (drop j (P @ Q)) \<Longrightarrow> j < length P"
  shows "\<not> sublist m Q"
proof
  assume "sublist m Q"
  from occ_in_middle[OF this, of P "[]"]
  obtain j where "prefix m (drop j (P @ Q))" and j: "length P \<le> j" by auto
  then have "j < length P" using assms by blast
  then show False using j by simp
qed


lemma well_formed_decomp:
  assumes "well_formed R"
  obtains P M X where "R = P @ tag_start @ M @ tag_end @ X"
    and "positions tag_start R = [length P]"
    and "positions tag_end R = [length P + length tag_start + length M]"
    and "\<not> sublist tag_start (P @ butlast tag_start)"
    and "\<not> sublist tag_start (M @ tag_end @ X)"
    and "\<not> sublist tag_end (M @ butlast tag_end)"
    and "\<not> sublist tag_end X"
proof -
  from assms have cs: "count_sub tag_start R = 1" and ce: "count_sub tag_end R = 1"
    and lt: "hd (positions tag_start R) < hd (positions tag_end R)"
    by (simp_all add: well_formed_def)
  obtain i where i: "positions tag_start R = [i]" "prefix tag_start (drop i R)"
    and ui: "\<And>j. prefix tag_start (drop j R) \<Longrightarrow> j = i"
    using count_sub_1D[OF cs tag_start_facts(1)] by blast
  obtain k where k: "positions tag_end R = [k]" "prefix tag_end (drop k R)"
    and uk: "\<And>j. prefix tag_end (drop j R) \<Longrightarrow> j = k"
    using count_sub_1D[OF ce tag_end_facts(1)] by blast
  from lt i(1) k(1) have ik: "i < k" by simp
  have ov: "i + length tag_start \<le> k"
    using i(2) k(2) ik by (rule no_overlap) (simp_all add: tag_end_facts tag_start_facts)
  define P where "P = take i R"
  define rest where "rest = drop (i + length tag_start) R"
  define d where "d = k - (i + length tag_start)"
  define M where "M = take d rest"
  define X where "X = drop (k + length tag_end) R"
  have R1: "R = P @ tag_start @ rest"
    unfolding P_def rest_def by (rule occ_split(1)[OF i(2) tag_start_facts(1)])
  have lenP: "length P = i"
    using occ_split(2)[OF i(2) tag_start_facts(1)] by (simp add: P_def)
  have dk: "drop d rest = drop k R" and dX: "drop (d + length tag_end) rest = X"
    using ov by (simp_all add: rest_def d_def X_def)
  have pe: "prefix tag_end (drop d rest)" using k(2) by (simp only: dk)
  have "rest = take d rest @ tag_end @ drop (d + length tag_end) rest"
    by (rule occ_split(1)[OF pe tag_end_facts(1)])
  then have R2: "rest = M @ tag_end @ X" unfolding dX M_def .
  have lenM: "length M = d"
    using occ_split(2)[OF pe tag_end_facts(1)] by (simp add: M_def)
  have R: "R = P @ tag_start @ M @ tag_end @ X"
    using R1 by (simp only: R2[symmetric])
  have R': "(P @ tag_start) @ M @ tag_end @ X = R" "(P @ tag_start @ M) @ tag_end @ X = R"
    "(P @ tag_start @ M @ tag_end) @ X = R"
    by (simp_all add: R)
  have kd: "k = length P + length tag_start + length M"
    using lenP lenM ov by (simp add: d_def)
  have c1: "\<not> sublist tag_start (P @ butlast tag_start)"
  proof (rule uniq_before[where Q = rest])
    show "tag_start \<noteq> []" by (rule tag_start_facts)
    fix j assume "prefix tag_start (drop j (P @ tag_start @ rest))"
    then have "j = i" unfolding R1[symmetric] by (rule ui)
    then show "length P \<le> j" using lenP by simp
  qed
  have c2: "\<not> sublist tag_start (M @ tag_end @ X)"
  proof (rule uniq_after[where P = "P @ tag_start"])
    fix j assume "prefix tag_start (drop j ((P @ tag_start) @ M @ tag_end @ X))"
    then have "j = i" unfolding R' by (rule ui)
    then show "j < length (P @ tag_start)" using lenP by (simp add: tag_start_facts)
  qed
  have c3: "\<not> sublist tag_end (M @ butlast tag_end)"
  proof -
    have "\<not> sublist tag_end ((P @ tag_start @ M) @ butlast tag_end)"
    proof (rule uniq_before[where Q = X])
      show "tag_end \<noteq> []" by (rule tag_end_facts)
      fix j assume "prefix tag_end (drop j ((P @ tag_start @ M) @ tag_end @ X))"
      then have "j = k" unfolding R' by (rule uk)
      then show "length (P @ tag_start @ M) \<le> j" using kd by simp
    qed
    moreover have "sublist tag_end ((P @ tag_start) @ (M @ butlast tag_end))"
      if "sublist tag_end (M @ butlast tag_end)"
      using that sublist_append by blast
    ultimately show ?thesis by auto
  qed
  have c4: "\<not> sublist tag_end X"
  proof (rule uniq_after[where P = "P @ tag_start @ M @ tag_end"])
    fix j assume "prefix tag_end (drop j ((P @ tag_start @ M @ tag_end) @ X))"
    then have "j = k" unfolding R' by (rule uk)
    then show "j < length (P @ tag_start @ M @ tag_end)" using kd by (simp add: tag_end_facts)
  qed
  have "positions tag_start R = [length P]" using i(1) lenP by simp
  moreover have "positions tag_end R = [length P + length tag_start + length M]"
    using k(1) kd by simp
  ultimately show ?thesis using c1 c2 c3 c4 R by (rule that[rotated])
qed

lemma not_prefix_before:
  assumes "m \<noteq> []" "\<not> sublist m ((p # P) @ butlast m)"
  shows "\<not> prefix m (p # P @ m @ Q)"
proof
  assume "prefix m (p # P @ m @ Q)"
  then have "prefix m ((p # P) @ m @ Q)" by simp
  then have "prefix m (((p # P) @ butlast m) @ [last m] @ Q)"
    by (simp only: snoc_butlast[OF assms(1), of "p # P" Q, symmetric])
  then have "prefix m ((p # P) @ butlast m)"
    by (rule prefix_append_short) simp
  then show False using assms(2) by auto
qed

lemma positions_first:
  "m \<noteq> [] \<Longrightarrow> \<not> sublist m (P @ butlast m) \<Longrightarrow> hd (positions m (P @ m @ Q)) = length P"
proof (induction P)
  case Nil
  then obtain c cs where m: "m = c # cs" by (cases m) auto
  show ?case by (simp add: m)
next
  case (Cons p P)
  have np: "\<not> prefix m (p # P @ m @ Q)"
    using Cons.prems by (rule not_prefix_before)
  have "\<not> sublist m (P @ butlast m)"
    using Cons.prems(2) by (simp add: sublist_Cons_right)
  then have "hd (positions m (P @ m @ Q)) = length P" using Cons by simp
  moreover have "positions m (P @ m @ Q) \<noteq> []"
    using sublist_iff_positions[OF Cons.prems(1), of "P @ m @ Q"] by simp
  ultimately show ?case using np by (simp add: hd_map)
qed

lemma positions_last:
  "m \<noteq> [] \<Longrightarrow> \<not> sublist m (tl m @ Q) \<Longrightarrow> last (positions m (P @ m @ Q)) = length P"
proof (induction P)
  case Nil
  then obtain c cs where m: "m = c # cs" by (cases m) auto
  with Nil have "positions m (cs @ Q) = []"
    using sublist_iff_positions[of m "cs @ Q"] by simp
  then show ?case by (simp add: m)
next
  case (Cons p P)
  have "positions m (P @ m @ Q) \<noteq> []"
    using sublist_iff_positions[OF Cons.prems(1), of "P @ m @ Q"] by simp
  then show ?case using Cons by (simp add: last_map)
qed

lemma text_before_first:
  "m \<noteq> [] \<Longrightarrow> \<not> sublist m (P @ butlast m) \<Longrightarrow> text_before m (P @ m @ Q) = P"
  by (simp add: text_before_def positions_first)

lemma text_after_last:
  "m \<noteq> [] \<Longrightarrow> \<not> sublist m (tl m @ Q) \<Longrightarrow> text_after m (P @ m @ Q) = Q"
  by (simp add: text_after_def positions_last)

lemma free_in_block:
  assumes "m \<noteq> []" "hd m \<notin> set fence" "newline \<notin> set m" "\<not> sublist m H"
    and "sublist m (fence @ H @ fence @ Y)"
  shows "sublist m Y"
proof -
  have "sublist m (H @ fence @ Y)" using assms(5,1,2) by (rule sub_app_hd)
  then have "sublist m H \<or> sublist m (fence @ Y)"
    by (rule sub_app_mid) (simp_all add: fence_facts assms(3))
  then have "sublist m (fence @ Y)" using assms(4) by simp
  then show ?thesis using assms(1,2) by (rule sub_app_hd)
qed

lemma not_sublist_butlast: "m \<noteq> [] \<Longrightarrow> \<not> sublist m (butlast m)"
  using sublist_length_le[of m "butlast m"] by (cases m rule: rev_cases) auto

lemma not_sublist_tl_app:
  assumes "m \<noteq> []" "hd m \<notin> set (tl m)" "\<not> sublist m Q"
  shows "\<not> sublist m (tl m @ Q)"
  using assms sub_app_hd by blast

lemma well_formed_parts:
  assumes "well_formed R"
  obtains P M X where "R = P @ tag_start @ M @ tag_end @ X"
    and "text_before tag_start R = P" and "help_block R = M" and "text_after tag_end R = X"
    and "\<not> sublist tag_start (P @ butlast tag_start)"
    and "\<not> sublist tag_start (M @ tag_end @ X)"
    and "\<not> sublist tag_end (M @ butlast tag_end)"
    and "\<not> sublist tag_end X"
proof -
  from assms obtain P M X where R: "R = P @ tag_start @ M @ tag_end @ X"
    and ps: "positions tag_start R = [length P]"
    and pe: "positions tag_end R = [length P + length tag_start + length M]"
    and c: "\<not> sublist tag_start (P @ butlast tag_start)"
      "\<not> sublist tag_start (M @ tag_end @ X)"
      "\<not> sublist tag_end (M @ butlast tag_end)"
      "\<not> sublist tag_end X"
    by (rule well_formed_decomp)
  have "text_before tag_start R = take (length P) R" by (simp add: text_before_def ps)
  then have 1: "text_before tag_start R = P" by (simp add: R)
  have "help_block R = take (length M) (drop (length P + length tag_start) R)"
    by (simp add: help_block_def ps pe Let_def)
  then have 2: "help_block R = M" by (simp add: R)
  have "text_after tag_end R
        = drop (length P + length tag_start + length M + length tag_end) R"
    by (simp add: text_after_def pe)
  then have 3: "text_after tag_end R = X" by (simp add: R)
  show ?thesis using R 1 2 3 c by (rule that)
qed

subsection \<open>Line endings\<close>

lemma universal_newlines_other:
  "c \<noteq> carriage_return \<Longrightarrow> universal_newlines (c # cs) = c # universal_newlines cs"
  by (cases cs) simp_all

lemma universal_newlines_cr:
  "\<exists>r. universal_newlines (carriage_return # cs) = newline # r"
  by (cases cs) simp_all

lemma universal_newlines_other':
  "carriage_return \<noteq> c \<Longrightarrow> universal_newlines (c # cs) = c # universal_newlines cs"
  by (cases cs) auto

lemma universal_newlines_plain:
  "carriage_return \<notin> set m \<Longrightarrow> universal_newlines (m @ ys) = m @ universal_newlines ys"
  by (induction m) (simp_all add: universal_newlines_other')

lemma universal_newlines_id: "carriage_return \<notin> set xs \<Longrightarrow> universal_newlines xs = xs"
  using universal_newlines_plain[of xs "[]"] by simp

lemma universal_newlines_append:
  "ys = [] \<or> hd ys \<noteq> newline \<Longrightarrow>
   universal_newlines (xs @ ys) = universal_newlines xs @ universal_newlines ys"
proof (induction xs rule: universal_newlines.induct)
  case 1
  then show ?case by simp
next
  case (2 c)
  then show ?case by (cases ys) auto
next
  case (3 c d cs)
  then show ?case by simp
qed

lemma prefix_universal_newlines:
  "carriage_return \<notin> set m \<Longrightarrow> newline \<notin> set m \<Longrightarrow>
   prefix m (universal_newlines xs) \<Longrightarrow> prefix m xs"
proof (induction m arbitrary: xs)
  case Nil
  then show ?case by simp
next
  case (Cons a m)
  show ?case
  proof (cases xs)
    case Nil
    with Cons.prems(3) show ?thesis by simp
  next
    case (Cons c cs)
    show ?thesis
    proof (cases "c = carriage_return")
      case True
      obtain r where "universal_newlines (carriage_return # cs) = newline # r"
        using universal_newlines_cr by blast
      with Cons.prems(2,3) Cons True show ?thesis by simp
    next
      case False
      with Cons.prems(3) Cons have "a = c" "prefix m (universal_newlines cs)"
        by (simp_all add: universal_newlines_other)
      moreover have "prefix m cs"
        using Cons.IH[of cs] Cons.prems(1,2) calculation(2) by simp
      ultimately show ?thesis using Cons by simp
    qed
  qed
qed

lemma sublist_universal_newlines:
  assumes "m \<noteq> []" "carriage_return \<notin> set m" "newline \<notin> set m"
  shows "sublist m (universal_newlines xs) \<Longrightarrow> sublist m xs"
proof (induction xs rule: universal_newlines.induct)
  case 1
  then show ?case by simp
next
  case (2 c)
  have "\<not> prefix m [newline]" using assms(1,3) by (cases m) (auto simp: prefix_Cons)
  with 2 assms(1) show ?case
    by (auto simp: sublist_Cons_right split: if_splits)
next
  case (3 c d cs)
  have np: "\<not> prefix m (newline # r)" for r
    using assms(1,3) by (cases m) auto
  show ?case
  proof (cases "c = carriage_return")
    case True
    show ?thesis
    proof (cases "d = newline")
      case dn: True
      with True 3(4) np have "sublist m (universal_newlines cs)"
        by (simp add: sublist_Cons_right)
      then have "sublist m cs" using 3(1) True dn by simp
      then show ?thesis by (simp add: sublist_Cons_right)
    next
      case dn: False
      with True 3(4) np have "sublist m (universal_newlines (d # cs))"
        by (simp add: sublist_Cons_right)
      then have "sublist m (d # cs)" using 3(2) True dn by simp
      then show ?thesis by (simp add: sublist_Cons_right)
    qed
  next
    case False
    with 3(4) have "prefix m (universal_newlines (c # d # cs))
                    \<or> sublist m (universal_newlines (d # cs))"
      by (simp add: sublist_Cons_right)
    then show ?thesis
    proof
      assume "prefix m (universal_newlines (c # d # cs))"
      then have "prefix m (c # d # cs)"
        using assms(2,3) prefix_universal_newlines by blast
      then show ?thesis by (rule prefix_imp_sublist)
    next
      assume "sublist m (universal_newlines (d # cs))"
      then have "sublist m (d # cs)" using 3(3) False by simp
      then show ?thesis by (simp add: sublist_Cons_right)
    qed
  qed
qed

lemma marker_chars:
  "carriage_return \<notin> set tag_start" "carriage_return \<notin> set tag_end"
  "carriage_return \<notin> set (butlast tag_start)" "carriage_return \<notin> set (butlast tag_end)"
  "hd tag_start \<noteq> newline" "hd tag_end \<noteq> newline"
  "hd (butlast tag_start) \<noteq> newline" "hd (butlast tag_end) \<noteq> newline"
  by (simp_all add: tag_start_def tag_end_def)

subsection \<open>The splice of \<^verbatim>\<open>sync_readme.py\<close>\<close>



text \<open>
  C1 (idempotence), as amended. For a well-formed README \<open>R\<close> and every help text
  \<open>H\<close> that contains neither marker, the splice succeeds and applying it to its own
  result, with the same \<open>H\<close>, returns that result again.
\<close>

theorem sync_idempotent:
  assumes "well_formed R" "count_sub tag_start H = 0" "count_sub tag_end H = 0"
  shows "\<exists>out. splice H R = Inr out \<and> splice H out = Inr out"
proof -
  from assms(1) obtain P M X where R: "R = P @ tag_start @ M @ tag_end @ X"
    and c: "\<not> sublist tag_start (P @ butlast tag_start)"
      "\<not> sublist tag_start (M @ tag_end @ X)"
      "\<not> sublist tag_end (M @ butlast tag_end)"
      "\<not> sublist tag_end X"
    by (rule well_formed_parts)
  from assms(2,3) have H: "\<not> sublist tag_start H" "\<not> sublist tag_end H"
    by (simp_all add: count_sub_0_iff tag_start_facts tag_end_facts)
  let ?B = "fence @ H @ fence"
  let ?out = "P @ tag_start @ ?B @ tag_end @ X"
  have "splice H (P @ tag_start @ M @ tag_end @ X) = Inr ?out"
    using splice_pattern[OF c] by simp
  then have 1: "splice H R = Inr ?out" by (simp only: R)
  have c2: "\<not> sublist tag_start (?B @ tag_end @ X)"
  proof
    assume "sublist tag_start (?B @ tag_end @ X)"
    then have s: "sublist tag_start (fence @ H @ fence @ tag_end @ X)" by simp
    have "sublist tag_start (tag_end @ X)"
      by (rule free_in_block[OF tag_start_facts(1) _ tag_start_facts(6) H(1) s])
         (simp add: tag_start_facts)
    then have "sublist tag_start (M @ tag_end @ X)" using sublist_append by blast
    with c(2) show False by simp
  qed
  have c3: "\<not> sublist tag_end (?B @ butlast tag_end)"
  proof
    assume "sublist tag_end (?B @ butlast tag_end)"
    then have s: "sublist tag_end (fence @ H @ fence @ butlast tag_end)" by simp
    have "sublist tag_end (butlast tag_end)"
      by (rule free_in_block[OF tag_end_facts(1) _ tag_end_facts(4) H(2) s])
         (simp add: tag_end_facts tag_start_facts)
    then show False using not_sublist_butlast[OF tag_end_facts(1)] by simp
  qed
  have 2: "splice H ?out = Inr ?out"
    using splice_pattern[OF c(1) c2 c3 c(4)] by simp
  show ?thesis using 1 2 by simp
qed

theorem sync_idempotent_witness:
  "well_formed ''pre<!-- HELP_START -->old<!-- HELP_END -->post''
   \<and> count_sub tag_start ''NEW'' = 0 \<and> count_sub tag_end ''NEW'' = 0
   \<and> (\<exists>out. splice ''NEW'' ''pre<!-- HELP_START -->old<!-- HELP_END -->post'' = Inr out
          \<and> splice ''NEW'' out = Inr out)"
proof -
  have wf: "well_formed ''pre<!-- HELP_START -->old<!-- HELP_END -->post''" by code_simp
  have s: "count_sub tag_start ''NEW'' = 0" by code_simp
  have e: "count_sub tag_end ''NEW'' = 0" by code_simp
  show ?thesis using wf s e sync_idempotent[OF wf s e] by simp
qed

text \<open>
  C1 as stated, for every help text, fails: a help text that contains the end
  marker is cut at that marker by the second run.
\<close>

theorem sync_idempotent_counterexample:
  "well_formed ''a<!-- HELP_START -->b<!-- HELP_END -->c''
   \<and> splice ''x<!-- HELP_END -->y'' ''a<!-- HELP_START -->b<!-- HELP_END -->c''
       = Inr (''a<!-- HELP_START -->'' @ fence @ ''x<!-- HELP_END -->y'' @ fence
              @ ''<!-- HELP_END -->c'')
   \<and> splice ''x<!-- HELP_END -->y''
         (''a<!-- HELP_START -->'' @ fence @ ''x<!-- HELP_END -->y'' @ fence
          @ ''<!-- HELP_END -->c'')
       = Inr (''a<!-- HELP_START -->'' @ fence @ ''x<!-- HELP_END -->y'' @ fence
              @ ''<!-- HELP_END -->y'' @ fence)"
  by code_simp

subsection \<open>What the script reads and writes\<close>

lemma read_well_formed:
  assumes "well_formed R"
  obtains P M X where "R = P @ tag_start @ M @ tag_end @ X"
    and "text_before tag_start R = P" and "help_block R = M" and "text_after tag_end R = X"
    and "universal_newlines R
         = universal_newlines P @ tag_start @ universal_newlines M @ tag_end
           @ universal_newlines X"
    and "\<not> sublist tag_start (universal_newlines P @ butlast tag_start)"
    and "\<not> sublist tag_start (universal_newlines M @ tag_end @ universal_newlines X)"
    and "\<not> sublist tag_end (universal_newlines M @ butlast tag_end)"
    and "\<not> sublist tag_end (universal_newlines X)"
proof -
  from assms obtain P M X where R: "R = P @ tag_start @ M @ tag_end @ X"
    and parts: "text_before tag_start R = P" "help_block R = M" "text_after tag_end R = X"
    and c: "\<not> sublist tag_start (P @ butlast tag_start)"
      "\<not> sublist tag_start (M @ tag_end @ X)"
      "\<not> sublist tag_end (M @ butlast tag_end)"
      "\<not> sublist tag_end X"
    by (rule well_formed_parts)
  have hs: "hd (tag_start @ ys) \<noteq> newline" and he: "hd (tag_end @ ys) \<noteq> newline" for ys
    by (simp_all add: tag_start_def tag_end_def)
  have ex: "universal_newlines (tag_end @ X) = tag_end @ universal_newlines X"
    by (rule universal_newlines_plain) (rule marker_chars)
  have mx: "universal_newlines (M @ tag_end @ X)
            = universal_newlines M @ tag_end @ universal_newlines X"
    using universal_newlines_append[of "tag_end @ X" M] he ex by simp
  have sx: "universal_newlines (tag_start @ M @ tag_end @ X)
            = tag_start @ universal_newlines M @ tag_end @ universal_newlines X"
    using universal_newlines_plain[OF marker_chars(1), of "M @ tag_end @ X"] mx by simp
  have "universal_newlines (P @ tag_start @ M @ tag_end @ X)
        = universal_newlines P @ tag_start @ universal_newlines M @ tag_end
          @ universal_newlines X"
    using universal_newlines_append[of "tag_start @ M @ tag_end @ X" P] hs sx by simp
  then have u: "universal_newlines R
        = universal_newlines P @ tag_start @ universal_newlines M @ tag_end
          @ universal_newlines X"
    by (simp only: R[symmetric])
  have bs: "universal_newlines (P @ butlast tag_start)
            = universal_newlines P @ butlast tag_start"
    using universal_newlines_append[of "butlast tag_start" P]
      universal_newlines_id[OF marker_chars(3)] marker_chars(7) by simp
  have be: "universal_newlines (M @ butlast tag_end)
            = universal_newlines M @ butlast tag_end"
    using universal_newlines_append[of "butlast tag_end" M]
      universal_newlines_id[OF marker_chars(4)] marker_chars(8) by simp
  note ss = sublist_universal_newlines[OF tag_start_facts(1) marker_chars(1) tag_start_facts(6)]
  note se = sublist_universal_newlines[OF tag_end_facts(1) marker_chars(2) tag_end_facts(4)]
  have c1: "\<not> sublist tag_start (universal_newlines P @ butlast tag_start)"
    using c(1) ss[of "P @ butlast tag_start"] by (auto simp only: bs)
  have c2: "\<not> sublist tag_start (universal_newlines M @ tag_end @ universal_newlines X)"
    using c(2) ss[of "M @ tag_end @ X"] by (auto simp only: mx)
  have c3: "\<not> sublist tag_end (universal_newlines M @ butlast tag_end)"
    using c(3) se[of "M @ butlast tag_end"] by (auto simp only: be)
  have c4: "\<not> sublist tag_end (universal_newlines X)"
    using c(4) se[of X] by auto
  show ?thesis using R parts u c1 c2 c3 c4 by (rule that)
qed

lemma splice_read_well_formed:
  fixes R H :: string
  assumes "well_formed R"
  defines "out \<equiv> universal_newlines (text_before tag_start R) @ tag_start @ fence @ H
                  @ fence @ tag_end @ universal_newlines (text_after tag_end R)"
  shows "splice H (universal_newlines R) = Inr out"
    and "text_before tag_start out = universal_newlines (text_before tag_start R)"
    and "text_after tag_end out = universal_newlines (text_after tag_end R)"
proof -
  from assms(1) obtain P M X where parts: "text_before tag_start R = P" "text_after tag_end R = X"
    and u: "universal_newlines R
         = universal_newlines P @ tag_start @ universal_newlines M @ tag_end
           @ universal_newlines X"
    and c: "\<not> sublist tag_start (universal_newlines P @ butlast tag_start)"
      "\<not> sublist tag_start (universal_newlines M @ tag_end @ universal_newlines X)"
      "\<not> sublist tag_end (universal_newlines M @ butlast tag_end)"
      "\<not> sublist tag_end (universal_newlines X)"
    by (rule read_well_formed)
  have o: "out = universal_newlines P @ tag_start @ fence @ H @ fence @ tag_end
                 @ universal_newlines X"
    by (simp add: out_def parts)
  show "splice H (universal_newlines R) = Inr out"
    unfolding u o using c by (rule splice_pattern)
  show "text_before tag_start out = universal_newlines (text_before tag_start R)"
    unfolding o parts using tag_start_facts(1) c(1) by (rule text_before_first)
  have "\<not> sublist tag_end (tl tag_end @ universal_newlines X)"
    using tag_end_facts(1) _ c(4) by (rule not_sublist_tl_app) (simp add: tag_end_def)
  with tag_end_facts(1)
  have "text_after tag_end ((universal_newlines P @ tag_start @ fence @ H @ fence)
                            @ tag_end @ universal_newlines X) = universal_newlines X"
    by (rule text_after_last)
  then show "text_after tag_end out = universal_newlines (text_after tag_end R)"
    unfolding o parts by simp
qed

lemma sync_readme_ok:
  assumes "help_cmd w = Inr H" "readme w = Some (Text R)"
    and "splice H (universal_newlines R) = Inr out"
  shows "sync_readme w = (Inr (), w\<lparr>spawned := spawned w @ [cargo_help],
                                     stdout := stdout w @ out @ [newline],
                                     readme := Some (Text out)\<rparr>)"
  using assms by (simp add: sync_readme_def spawn_def read_text_def)

lemma sync_readme_err:
  assumes "help_cmd w = Inr H" "readme w = Some (Text R)"
    and "splice H (universal_newlines R) = Inl e"
  shows "sync_readme w = (Inl e, w\<lparr>spawned := spawned w @ [cargo_help]\<rparr>)"
  using assms by (simp add: sync_readme_def spawn_def read_text_def)

lemma sync_readme_no_help:
  assumes "help_cmd w = Inl e"
  shows "sync_readme w = (Inl e, w\<lparr>spawned := spawned w @ [cargo_help]\<rparr>)"
  using assms by (simp add: sync_readme_def spawn_def)

subsection \<open>The whole run of \<^verbatim>\<open>sync_readme.py\<close>\<close>





text \<open>
  C4 (malformed input rejection). When the start marker or the end marker is absent
  from the README \<open>R\<close>, the run leaves the README as it was; and once the help text
  has been captured, the run ends with the \<open>IndexError\<close> of an out-of-range
  subscript, which is the script's form of the specification's
  \<open>MalformedDocumentError\<close>, with nothing printed.
\<close>

theorem sync_rejects_missing_marker:
  assumes "count_sub tag_start R = 0 \<or> count_sub tag_end R = 0"
    and "readme w = Some (Text R)"
  shows "readme (snd (sync_readme w)) = Some (Text R)
         \<and> (\<forall>H. help_cmd w = Inr H \<longrightarrow>
               fst (sync_readme w) = Inl IndexError
               \<and> stdout (snd (sync_readme w)) = stdout w)"
proof -
  from assms(1) have "\<not> sublist tag_start R \<or> \<not> sublist tag_end R"
    by (simp add: count_sub_0_iff tag_start_facts tag_end_facts)
  then have ab: "\<not> sublist tag_start (universal_newlines R)
                 \<or> \<not> sublist tag_end (universal_newlines R)"
    using sublist_universal_newlines[OF tag_start_facts(1) marker_chars(1) tag_start_facts(6)]
      sublist_universal_newlines[OF tag_end_facts(1) marker_chars(2) tag_end_facts(4)]
    by blast
  have 1: "readme (snd (sync_readme w)) = Some (Text R)"
  proof (cases "help_cmd w")
    case (Inl e)
    then show ?thesis using assms(2) by (simp add: sync_readme_no_help)
  next
    case (Inr H)
    then show ?thesis
      using sync_readme_err[OF Inr assms(2) splice_absent[OF ab]] assms(2) by simp
  qed
  have 2: "fst (sync_readme w) = Inl IndexError \<and> stdout (snd (sync_readme w)) = stdout w"
    if "help_cmd w = Inr H" for H
    using sync_readme_err[OF that assms(2) splice_absent[OF ab]] by simp
  show ?thesis using 1 2 by blast
qed

theorem sync_rejects_missing_marker_witness:
  "(count_sub tag_start ''a<!-- HELP_START -->b'' = 0
      \<or> count_sub tag_end ''a<!-- HELP_START -->b'' = 0)
   \<and> readme w_no_end = Some (Text ''a<!-- HELP_START -->b'')
   \<and> help_cmd w_no_end = Inr ''NEW''
   \<and> readme (snd (sync_readme w_no_end)) = Some (Text ''a<!-- HELP_START -->b'')
   \<and> fst (sync_readme w_no_end) = Inl IndexError
   \<and> stdout (snd (sync_readme w_no_end)) = stdout w_no_end"
proof -
  have a: "count_sub tag_start ''a<!-- HELP_START -->b'' = 0
           \<or> count_sub tag_end ''a<!-- HELP_START -->b'' = 0" by code_simp
  have r: "readme w_no_end = Some (Text ''a<!-- HELP_START -->b'')"
    by (simp add: w_no_end_def)
  have h: "help_cmd w_no_end = Inr ''NEW''" by (simp add: w_no_end_def)
  show ?thesis using a r h sync_rejects_missing_marker[OF a r] by blast
qed


text \<open>
  C10, as amended. When the run succeeds, what it has printed is the text it wrote
  into the README followed by one newline, the one \<^verbatim>\<open>print\<close> appends.
\<close>

theorem sync_prints_what_it_writes:
  assumes "fst (sync_readme w) = Inr ()"
  shows "\<exists>out. readme (snd (sync_readme w)) = Some (Text out)
           \<and> stdout (snd (sync_readme w)) = stdout w @ out @ [newline]"
  using assms
  by (auto simp: sync_readme_def spawn_def Let_def split: sum.splits)

lemma sync_w_small:
  "sync_readme w_small
   = (Inr (), w_small\<lparr>spawned := [cargo_help],
                      stdout := tag_start @ fence @ ''h'' @ fence @ tag_end @ [newline],
                      readme := Some (Text (tag_start @ fence @ ''h'' @ fence @ tag_end))\<rparr>)"
proof -
  have "splice ''h'' (universal_newlines ''<!-- HELP_START --><!-- HELP_END -->'')
        = Inr (tag_start @ fence @ ''h'' @ fence @ tag_end)" by code_simp
  then show ?thesis
    using sync_readme_ok[of w_small "''h''" "''<!-- HELP_START --><!-- HELP_END -->''"]
    by (simp add: w_small_def)
qed

theorem sync_prints_what_it_writes_witness:
  "fst (sync_readme w_small) = Inr ()
   \<and> (\<exists>out. readme (snd (sync_readme w_small)) = Some (Text out)
          \<and> stdout (snd (sync_readme w_small)) = stdout w_small @ out @ [newline])"
proof -
  have s: "fst (sync_readme w_small) = Inr ()" by (simp add: sync_w_small)
  show ?thesis using s sync_prints_what_it_writes[OF s] by (rule conjI)
qed

text \<open>
  C10 as stated fails: the printed text is not the written text, it is one
  character longer.
\<close>

theorem sync_prints_what_it_writes_counterexample:
  "fst (sync_readme w_small) = Inr ()
   \<and> readme (snd (sync_readme w_small))
       \<noteq> Some (Text (stdout (snd (sync_readme w_small))))"
  by (simp add: sync_w_small)

subsection \<open>Repeated markers\<close>







subsection \<open>The check script\<close>

lemma cmd_subst_empty_iff: "cmd_subst s = [] \<longleftrightarrow> set s \<subseteq> {newline}"
  by (auto simp: cmd_subst_def dropWhile_eq_Nil_conv)

lemma check_dirty:
  assumes "cmd_subst (git_diff w (readme w)) \<noteq> []"
  shows "check_synced_readme w
         = (1, echo ''README file not clean'' (spawn git_diff_cmd w))"
  using assms by (simp add: check_synced_readme_def run_git_diff_def)

lemma check_clean:
  assumes "cmd_subst (git_diff w (readme w)) = []"
    and "sync_readme (spawn sync_cmd (echo ''Working directory clean'' (spawn git_diff_cmd w)))
         = (r, w')"
  shows "check_synced_readme w
         = (if exit_status r \<noteq> 0 then (exit_status r, w')
            else if cmd_subst (git_diff w' (readme w')) = []
            then (0, echo ''README is up to date'' (spawn git_diff_cmd w'))
            else (1, echo ''README not synced''
                       ((spawn git_diff_cmd (spawn git_diff_cmd w'))
                          \<lparr>stdout := stdout w' @ git_diff w' (readme w')\<rparr>)))"
  using assms
  by (simp add: check_synced_readme_def run_git_diff_def Let_def spawn_def echo_def)

text \<open>
  C6 (precondition failure). When \<^verbatim>\<open>git diff\<close> of the README prints a diff at the
  start, the check exits with status 1 at once: the only subprocess it has
  started is that \<^verbatim>\<open>git diff\<close>, so neither \<^verbatim>\<open>sync_readme.py\<close> nor the help capture
  ran, the README is untouched, and the one line printed is the complaint. The
  script tests the diff as \<^verbatim>\<open>"$(git diff $FILE)"\<close>, that is, without its trailing
  newlines; a diff that git prints is never made of newlines only, so for git's
  output this is the test for a non-empty diff.
\<close>

theorem check_fails_on_dirty_tree:
  assumes "cmd_subst (git_diff w (readme w)) \<noteq> []"
  shows "fst (check_synced_readme w) = 1
         \<and> spawned (snd (check_synced_readme w)) = spawned w @ [git_diff_cmd]
         \<and> readme (snd (check_synced_readme w)) = readme w
         \<and> stdout (snd (check_synced_readme w))
             = stdout w @ ''README file not clean'' @ [newline]"
  using check_dirty[OF assms] by (simp add: echo_def spawn_def)

theorem check_fails_on_dirty_tree_witness:
  "cmd_subst (git_diff w_dirty (readme w_dirty)) \<noteq> []
   \<and> fst (check_synced_readme w_dirty) = 1
   \<and> spawned (snd (check_synced_readme w_dirty)) = [git_diff_cmd]
   \<and> readme (snd (check_synced_readme w_dirty)) = readme w_dirty
   \<and> stdout (snd (check_synced_readme w_dirty)) = ''README file not clean'' @ [newline]"
proof -
  have d: "cmd_subst (git_diff w_dirty (readme w_dirty)) \<noteq> []"
    by (simp add: w_dirty_def committed_diff_def cmd_subst_def)
  have e: "spawned w_dirty = []" "stdout w_dirty = []" by (simp_all add: w_dirty_def)
  show ?thesis using d check_fails_on_dirty_tree[OF d] by (simp add: e)
qed

text \<open>
  C7 (postcondition and propagation). Let the first diff be empty, so that the check
  runs \<^verbatim>\<open>sync_readme.py\<close>, and let that run end with result \<open>r\<close> in world \<open>w'\<close>.
  If it raised, the check exits non-zero. If it succeeded and the diff of the README
  is now non-empty, the check prints that diff, then \<^verbatim>\<open>README not synced\<close>, and
  exits non-zero. If it succeeded and the diff is empty, the check exits 0.
\<close>

theorem check_after_sync:
  assumes "cmd_subst (git_diff w (readme w)) = []"
    and "sync_readme (spawn sync_cmd (echo ''Working directory clean'' (spawn git_diff_cmd w)))
         = (r, w')"
  shows "(\<forall>e. r = Inl e \<longrightarrow> fst (check_synced_readme w) \<noteq> 0)
         \<and> (r = Inr () \<and> cmd_subst (git_diff w' (readme w')) \<noteq> [] \<longrightarrow>
              fst (check_synced_readme w) \<noteq> 0
              \<and> stdout (snd (check_synced_readme w))
                  = stdout w' @ git_diff w' (readme w') @ ''README not synced'' @ [newline])
         \<and> (r = Inr () \<and> cmd_subst (git_diff w' (readme w')) = [] \<longrightarrow>
              fst (check_synced_readme w) = 0)"
  unfolding check_clean[OF assms]
  by (auto simp: exit_status_def echo_def spawn_def)

lemma splice_v1:
  "splice ''v2'' (universal_newlines ''<!-- HELP_START -->v1<!-- HELP_END -->'')
   = Inr (tag_start @ fence @ ''v2'' @ fence @ tag_end)"
  by code_simp

lemma splice_v2:
  "splice ''v2'' (universal_newlines (tag_start @ fence @ ''v2'' @ fence @ tag_end))
   = Inr (tag_start @ fence @ ''v2'' @ fence @ tag_end)"
  by code_simp

lemma sync_w_stale:
  "sync_readme (spawn sync_cmd (echo ''Working directory clean'' (spawn git_diff_cmd w_stale)))
   = (Inr (), w_stale\<lparr>spawned := [git_diff_cmd, sync_cmd, cargo_help],
                       stdout := ''Working directory clean'' @ [newline] @ tag_start @ fence
                                 @ ''v2'' @ fence @ tag_end @ [newline],
                       readme := Some (Text (tag_start @ fence @ ''v2'' @ fence @ tag_end))\<rparr>)"
  using sync_readme_ok[OF _ _ splice_v1,
      of "spawn sync_cmd (echo ''Working directory clean'' (spawn git_diff_cmd w_stale))"]
  by (simp add: w_stale_def spawn_def echo_def)

lemma sync_w_synced:
  "sync_readme (spawn sync_cmd (echo ''Working directory clean'' (spawn git_diff_cmd w_synced)))
   = (Inr (), w_synced\<lparr>spawned := [git_diff_cmd, sync_cmd, cargo_help],
                       stdout := ''Working directory clean'' @ [newline] @ tag_start @ fence
                                 @ ''v2'' @ fence @ tag_end @ [newline]\<rparr>)"
  using sync_readme_ok[OF _ _ splice_v2,
      of "spawn sync_cmd (echo ''Working directory clean'' (spawn git_diff_cmd w_synced))"]
  by (simp add: w_synced_def spawn_def echo_def)

lemma sync_w_no_cargo:
  "sync_readme (spawn sync_cmd (echo ''Working directory clean'' (spawn git_diff_cmd w_no_cargo)))
   = (Inl CalledProcessError,
      w_no_cargo\<lparr>spawned := [git_diff_cmd, sync_cmd, cargo_help],
                  stdout := ''Working directory clean'' @ [newline]\<rparr>)"
  by (simp add: sync_readme_def w_no_cargo_def spawn_def echo_def)

theorem check_after_sync_witness:
  "cmd_subst (git_diff w_no_cargo (readme w_no_cargo)) = []
   \<and> fst (check_synced_readme w_no_cargo) \<noteq> 0
   \<and> cmd_subst (git_diff w_stale (readme w_stale)) = []
   \<and> fst (check_synced_readme w_stale) \<noteq> 0
   \<and> stdout (snd (check_synced_readme w_stale))
       = ''Working directory clean'' @ [newline] @ tag_start @ fence @ ''v2'' @ fence @ tag_end
         @ [newline] @ ''diff --git a/README.md b/README.md'' @ ''README not synced'' @ [newline]
   \<and> cmd_subst (git_diff w_synced (readme w_synced)) = []
   \<and> fst (check_synced_readme w_synced) = 0"
proof -
  have a: "cmd_subst (git_diff w_no_cargo (readme w_no_cargo)) = []"
    by (simp add: w_no_cargo_def committed_diff_def cmd_subst_def)
  have b: "cmd_subst (git_diff w_stale (readme w_stale)) = []"
    by (simp add: w_stale_def committed_diff_def cmd_subst_def)
  have c: "cmd_subst (git_diff w_synced (readme w_synced)) = []"
    by (simp add: w_synced_def committed_diff_def cmd_subst_def)
  have 1: "fst (check_synced_readme w_no_cargo) \<noteq> 0"
    using check_after_sync[OF a sync_w_no_cargo] by simp
  have 2: "fst (check_synced_readme w_stale) \<noteq> 0
           \<and> stdout (snd (check_synced_readme w_stale))
       = ''Working directory clean'' @ [newline] @ tag_start @ fence @ ''v2'' @ fence @ tag_end
         @ [newline] @ ''diff --git a/README.md b/README.md'' @ ''README not synced'' @ [newline]"
    using check_after_sync[OF b sync_w_stale]
    by (simp add: w_stale_def committed_diff_def cmd_subst_def tag_start_def tag_end_def fence_def)
  have 3: "fst (check_synced_readme w_synced) = 0"
    using check_after_sync[OF c sync_w_synced]
    by (simp add: w_synced_def committed_diff_def cmd_subst_def)
  show ?thesis using a b c 1 2 3 by simp
qed

text \<open>
  C8 (check success), as amended. From a clean working tree, with a well-formed
  README that has no carriage return outside the markers and whose help block is
  already a newline, three backquotes, a newline, the help text that the command
  prints now, a newline, three backquotes and a newline, the check exits 0 and the
  README is the same file afterwards.
\<close>

theorem check_succeeds_when_synced:
  assumes "cmd_subst (git_diff w (readme w)) = []" "readme w = Some (Text R)"
    and "help_cmd w = Inr H" "well_formed R"
    and "help_block R = [CHR 0x0A] @ ''```'' @ [CHR 0x0A] @ H @ [CHR 0x0A] @ ''```'' @ [CHR 0x0A]"
    and "carriage_return \<notin> set (text_before tag_start R)"
    and "carriage_return \<notin> set (text_after tag_end R)"
  shows "fst (check_synced_readme w) = 0
         \<and> readme (snd (check_synced_readme w)) = Some (Text R)"
proof -
  let ?w2 = "spawn sync_cmd (echo ''Working directory clean'' (spawn git_diff_cmd w))"
  from assms(4) obtain P M X where R: "R = P @ tag_start @ M @ tag_end @ X"
    and parts: "text_before tag_start R = P" "help_block R = M" "text_after tag_end R = X"
    by (rule read_well_formed)
  have M: "M = fence @ H @ fence" using assms(5) parts(2) by (simp add: fence_def)
  have "universal_newlines (text_before tag_start R) @ tag_start @ fence @ H @ fence
        @ tag_end @ universal_newlines (text_after tag_end R)
        = P @ tag_start @ M @ tag_end @ X"
    using universal_newlines_id[OF assms(6)] universal_newlines_id[OF assms(7)]
    by (simp add: parts M)
  then have sp: "splice H (universal_newlines R) = Inr R"
    using splice_read_well_formed(1)[OF assms(4), of H] by (simp only: R[symmetric])
  have h: "help_cmd ?w2 = Inr H" and r: "readme ?w2 = Some (Text R)"
    using assms(2,3) by (simp_all add: spawn_def echo_def)
  note s = sync_readme_ok[OF h r sp]
  have g: "cmd_subst (git_diff w (Some (Text R))) = []" using assms(1,2) by simp
  show ?thesis
    unfolding check_clean[OF assms(1) s]
    using g by (simp add: exit_status_def echo_def spawn_def)
qed

theorem check_succeeds_when_synced_witness:
  "cmd_subst (git_diff w_synced (readme w_synced)) = []
   \<and> readme w_synced = Some (Text (tag_start @ fence @ ''v2'' @ fence @ tag_end))
   \<and> help_cmd w_synced = Inr ''v2''
   \<and> well_formed (tag_start @ fence @ ''v2'' @ fence @ tag_end)
   \<and> help_block (tag_start @ fence @ ''v2'' @ fence @ tag_end)
       = [CHR 0x0A] @ ''```'' @ [CHR 0x0A] @ ''v2'' @ [CHR 0x0A] @ ''```'' @ [CHR 0x0A]
   \<and> carriage_return
       \<notin> set (text_before tag_start (tag_start @ fence @ ''v2'' @ fence @ tag_end))
   \<and> carriage_return
       \<notin> set (text_after tag_end (tag_start @ fence @ ''v2'' @ fence @ tag_end))
   \<and> fst (check_synced_readme w_synced) = 0
   \<and> readme (snd (check_synced_readme w_synced))
       = Some (Text (tag_start @ fence @ ''v2'' @ fence @ tag_end))"
proof -
  have a: "cmd_subst (git_diff w_synced (readme w_synced)) = []"
    by (simp add: w_synced_def committed_diff_def cmd_subst_def)
  have b: "readme w_synced = Some (Text (tag_start @ fence @ ''v2'' @ fence @ tag_end))"
    by (simp add: w_synced_def)
  have c: "help_cmd w_synced = Inr ''v2''" by (simp add: w_synced_def)
  have d: "well_formed (tag_start @ fence @ ''v2'' @ fence @ tag_end)" by code_simp
  have e: "help_block (tag_start @ fence @ ''v2'' @ fence @ tag_end)
           = [CHR 0x0A] @ ''```'' @ [CHR 0x0A] @ ''v2'' @ [CHR 0x0A] @ ''```'' @ [CHR 0x0A]"
    by code_simp
  have f: "carriage_return
           \<notin> set (text_before tag_start (tag_start @ fence @ ''v2'' @ fence @ tag_end))"
    by code_simp
  have g: "carriage_return
           \<notin> set (text_after tag_end (tag_start @ fence @ ''v2'' @ fence @ tag_end))"
    by code_simp
  show ?thesis using a b c d e f g check_succeeds_when_synced[OF a b c d e f g] by blast
qed

lemma sync_in_check_w_crlf:
  "sync_readme (spawn sync_cmd (echo ''Working directory clean'' (spawn git_diff_cmd w_crlf)))
   = (Inr (), w_crlf\<lparr>spawned := [git_diff_cmd, sync_cmd, cargo_help],
                     stdout := ''Working directory clean'' @ [newline] @ ''# tool''
                               @ [newline] @ tag_start @ fence @ ''v2'' @ fence @ tag_end
                               @ ''bye'' @ [newline],
                     readme := Some (Text (''# tool'' @ [newline] @ tag_start @ fence @ ''v2''
                                           @ fence @ tag_end @ ''bye''))\<rparr>)"
proof -
  have "splice ''v2'' (universal_newlines readme_crlf)
        = Inr (''# tool'' @ [newline] @ tag_start @ fence @ ''v2'' @ fence @ tag_end @ ''bye'')"
    by code_simp
  then show ?thesis
    using sync_readme_ok[of
        "spawn sync_cmd (echo ''Working directory clean'' (spawn git_diff_cmd w_crlf))"
        "''v2''" readme_crlf]
    by (simp add: w_crlf_def spawn_def echo_def)
qed

text \<open>
  C8 as stated fails: this README is committed, well-formed and has the current
  help text in its block, but its first line ends in carriage return and newline.
  The run writes that line back with a newline alone, so the second diff is not
  empty and the check exits 1 with the README changed.
\<close>

theorem check_succeeds_when_synced_counterexample:
  "cmd_subst (git_diff w_crlf (readme w_crlf)) = []
   \<and> readme w_crlf = Some (Text readme_crlf)
   \<and> help_cmd w_crlf = Inr ''v2''
   \<and> well_formed readme_crlf
   \<and> help_block readme_crlf
       = [CHR 0x0A] @ ''```'' @ [CHR 0x0A] @ ''v2'' @ [CHR 0x0A] @ ''```'' @ [CHR 0x0A]
   \<and> fst (check_synced_readme w_crlf) = 1
   \<and> readme (snd (check_synced_readme w_crlf)) \<noteq> Some (Text readme_crlf)"
proof -
  have a: "cmd_subst (git_diff w_crlf (readme w_crlf)) = []"
    by (simp add: w_crlf_def committed_diff_def cmd_subst_def)
  have b: "readme w_crlf = Some (Text readme_crlf)" by (simp add: w_crlf_def)
  have c: "help_cmd w_crlf = Inr ''v2''" by (simp add: w_crlf_def)
  have d: "well_formed readme_crlf" by code_simp
  have e: "help_block readme_crlf
           = [CHR 0x0A] @ ''```'' @ [CHR 0x0A] @ ''v2'' @ [CHR 0x0A] @ ''```'' @ [CHR 0x0A]"
    by code_simp
  have f: "fst (check_synced_readme w_crlf) = 1
           \<and> readme (snd (check_synced_readme w_crlf)) \<noteq> Some (Text readme_crlf)"
    unfolding check_clean[OF a sync_in_check_w_crlf]
    by (simp add: exit_status_def echo_def spawn_def w_crlf_def committed_diff_def
        cmd_subst_def readme_crlf_def)
  show ?thesis using a b c d e f by blast
qed

lemma sync_in_check_w_two_ends:
  "sync_readme (spawn sync_cmd (echo ''Working directory clean'' (spawn git_diff_cmd w_two_ends)))
   = (Inr (), w_two_ends\<lparr>spawned := [git_diff_cmd, sync_cmd, cargo_help],
                     stdout := ''Working directory clean'' @ [newline] @ tag_start @ fence
                               @ ''v2'' @ fence @ tag_end @ ''c'' @ [newline],
                     readme := Some (Text (tag_start @ fence @ ''v2'' @ fence @ tag_end
                                           @ ''c''))\<rparr>)"
proof -
  have "splice ''v2'' (universal_newlines readme_two_ends)
        = Inr (tag_start @ fence @ ''v2'' @ fence @ tag_end @ ''c'')"
    by code_simp
  then show ?thesis
    using sync_readme_ok[of
        "spawn sync_cmd (echo ''Working directory clean'' (spawn git_diff_cmd w_two_ends))"
        "''v2''" readme_two_ends]
    by (simp add: w_two_ends_def spawn_def echo_def)
qed

text \<open>
  Well-formedness is needed as well: this committed README has the current help
  text between its start marker and its first end marker, but a second end marker
  behind it, and the check exits 1.
\<close>

lemma check_two_end_markers:
  "cmd_subst (git_diff w_two_ends (readme w_two_ends)) = []
   \<and> count_sub tag_start readme_two_ends = 1 \<and> count_sub tag_end readme_two_ends = 2
   \<and> carriage_return \<notin> set readme_two_ends
   \<and> help_block readme_two_ends
       = [CHR 0x0A] @ ''```'' @ [CHR 0x0A] @ ''v2'' @ [CHR 0x0A] @ ''```'' @ [CHR 0x0A]
   \<and> fst (check_synced_readme w_two_ends) = 1"
proof -
  have a: "cmd_subst (git_diff w_two_ends (readme w_two_ends)) = []"
    by (simp add: w_two_ends_def committed_diff_def cmd_subst_def)
  have b: "count_sub tag_start readme_two_ends = 1 \<and> count_sub tag_end readme_two_ends = 2"
    by code_simp
  have c: "carriage_return \<notin> set readme_two_ends" by code_simp
  have e: "help_block readme_two_ends
           = [CHR 0x0A] @ ''```'' @ [CHR 0x0A] @ ''v2'' @ [CHR 0x0A] @ ''```'' @ [CHR 0x0A]"
    by code_simp
  have f: "fst (check_synced_readme w_two_ends) = 1"
    unfolding check_clean[OF a sync_in_check_w_two_ends]
    by (simp add: exit_status_def echo_def spawn_def w_two_ends_def committed_diff_def
        cmd_subst_def readme_two_ends_def tag_start_def tag_end_def fence_def)
  show ?thesis using a b c e f by blast
qed

end
